theory Spec2Isabelle
  imports Main
begin

section \<open>Strings of the script\<close>

text \<open>
  A JavaScript string is modelled as a \<^typ>\<open>string\<close>, one \<^typ>\<open>char\<close> per code unit
  (code units below 256, read as Latin-1).  The functions of this section are the
  string operations and regular expressions that \<^verbatim>\<open>Bing-Translate-UI-Overhaul.js\<close>
  (version 2.0) applies.
\<close>

text \<open>The class \<^verbatim>\<open>\s\<close> of a regular expression, which is also what \<^verbatim>\<open>trim()\<close> strips.\<close>

definition is_space :: "char \<Rightarrow> bool" where
  "is_space c \<longleftrightarrow>
     c = CHR 0x09 \<or> c = CHR 0x0A \<or> c = CHR 0x0B \<or> c = CHR 0x0C \<or> c = CHR 0x0D \<or>
     c = CHR 0x20 \<or> c = CHR 0xA0"

text \<open>\<^verbatim>\<open>s.trim()\<close>\<close>

definition trim :: "string \<Rightarrow> string" where
  "trim s = rev (dropWhile is_space (rev (dropWhile is_space s)))"

text \<open>\<^verbatim>\<open>s.includes(pat)\<close>\<close>

fun str_includes :: "string \<Rightarrow> string \<Rightarrow> bool" where
  "str_includes [] pat = (pat = [])"
| "str_includes (c # cs) pat = (take (length pat) (c # cs) = pat \<or> str_includes cs pat)"

text \<open>\<^verbatim>\<open>s.split('\n')\<close>: the result is never empty, and \<^verbatim>\<open>''.split('\n')\<close> is \<^verbatim>\<open>['']\<close>.\<close>

fun split_nl :: "string \<Rightarrow> string list" where
  "split_nl [] = [[]]"
| "split_nl (c # cs) =
     (if c = CHR 0x0A then [] # split_nl cs
      else (c # hd (split_nl cs)) # tl (split_nl cs))"

text \<open>\<^verbatim>\<open>xs.join('\n')\<close>\<close>

fun join_nl :: "string list \<Rightarrow> string" where
  "join_nl [] = []"
| "join_nl [l] = l"
| "join_nl (l # ls) = l @ CHR 0x0A # join_nl ls"

text \<open>
  One match of \<^verbatim>\<open>/<br\s*\/?>/i\<close> at the start of a string: the rest of the string
  after the match, or \<open>None\<close>.  Neither \<^verbatim>\<open>/\<close> nor \<^verbatim>\<open>>\<close> is a space, so
  the greedy \<^verbatim>\<open>\s*\<close> and \<^verbatim>\<open>\/?\<close> never have to give anything back.
\<close>

definition match_br :: "string \<Rightarrow> string option" where
  "match_br s =
     (case s of
        c1 # c2 # c3 # rest \<Rightarrow>
          if c1 = CHR ''<'' \<and> (c2 = CHR ''b'' \<or> c2 = CHR ''B'') \<and> (c3 = CHR ''r'' \<or> c3 = CHR ''R'')
          then (let r1 = dropWhile is_space rest;
                    r2 = (case r1 of c # r \<Rightarrow> if c = CHR ''/'' then r else r1 | [] \<Rightarrow> r1)
                in case r2 of c # r \<Rightarrow> if c = CHR ''>'' then Some r else None | [] \<Rightarrow> None)
          else None
      | _ \<Rightarrow> None)"

text \<open>\<^verbatim>\<open>s.replace(/<br\s*\/?>/gi, '\n')\<close>\<close>

function replace_br :: "string \<Rightarrow> string" where
  "replace_br [] = []"
| "replace_br (c # cs) =
     (case match_br (c # cs) of
        Some rest \<Rightarrow> CHR 0x0A # replace_br rest
      | None \<Rightarrow> c # replace_br cs)"
  by pat_completeness auto
termination
proof (relation "measure length")
  fix c cs rest
  assume m: "match_br (c # cs) = Some rest"
  have le: "\<And>xs :: string. length (dropWhile is_space xs) \<le> length xs"
    by (rule length_dropWhile_le)
  from m obtain c2 c3 r0 where cs: "cs = c2 # c3 # r0"
    by (auto simp: match_br_def split: list.splits)
  from m cs have "length rest \<le> length (dropWhile is_space r0)"
    by (auto simp: match_br_def Let_def split: list.splits if_splits)
  with le [of r0] cs show "(rest, c # cs) \<in> measure length" by simp
qed simp_all

text \<open>The sentence terminators of the output segmentation.\<close>

definition is_term :: "char \<Rightarrow> bool" where
  "is_term c \<longleftrightarrow> c = CHR ''.'' \<or> c = CHR ''!'' \<or> c = CHR ''?''"

text \<open>
  \<^verbatim>\<open>s.match(/[^.!?]+(?:[.!?]+|$)/g)\<close>, with the empty list for \<^verbatim>\<open>null\<close>.  A match
  starts at the first character that is no terminator, takes every character up to the
  next terminator (line breaks too), and then the whole run of terminators; where the
  string ends instead, \<^verbatim>\<open>$\<close> matches.  Terminators before the first match belong to
  no match.
\<close>

function match_sentences :: "string \<Rightarrow> string list" where
  "match_sentences s =
     (let s1 = dropWhile is_term s in
      if s1 = [] then []
      else (let body = takeWhile (\<lambda>c. \<not> is_term c) s1;
                r1 = dropWhile (\<lambda>c. \<not> is_term c) s1;
                terms = takeWhile is_term r1;
                r2 = dropWhile is_term r1
            in (body @ terms) # match_sentences r2))"
  by pat_completeness auto
termination
proof (relation "measure length")
  fix s s1 body r1 terms r2
  assume s1: "s1 = dropWhile is_term s" and ne: "s1 \<noteq> []"
    and r1: "r1 = dropWhile (\<lambda>c. \<not> is_term c) s1" and r2: "r2 = dropWhile is_term r1"
  from ne obtain c cs where c: "s1 = c # cs"
    by (cases s1) auto
  with s1 have "dropWhile is_term s = c # cs"
    by simp
  then have "\<not> is_term c"
    by (simp add: dropWhile_eq_Cons_conv)
  with c have "length r1 \<le> length cs"
    by (simp add: r1 length_dropWhile_le)
  moreover have "length r2 \<le> length r1"
    by (simp add: r2 length_dropWhile_le)
  moreover have "length s1 \<le> length s"
    by (simp add: s1 length_dropWhile_le)
  ultimately show "(r2, s) \<in> measure length"
    using c by simp
qed simp

text \<open>\<^verbatim>\<open>s.replace(/\.\s+/g, '.')\<close>: the spaces after a full stop are removed.\<close>

function strip_dot_space :: "string \<Rightarrow> string" where
  "strip_dot_space [] = []"
| "strip_dot_space (c # cs) =
     (if c = CHR ''.'' \<and> cs \<noteq> [] \<and> is_space (hd cs)
      then CHR ''.'' # strip_dot_space (dropWhile is_space cs)
      else c # strip_dot_space cs)"
  by pat_completeness auto
termination
  by (relation "measure length") (auto simp: length_dropWhile_le less_Suc_eq_le)

declare match_sentences.simps [simp del]

section \<open>The page and what the script does to it\<close>

text \<open>
  The script reads and writes the host page only.  The page is a record of what the
  script can observe and change: the elements it looks up with \<^verbatim>\<open>querySelector\<close>
  (\<open>None\<close> for \<^verbatim>\<open>null\<close>), the two strings \<^verbatim>\<open>preserveBingLineBreaks\<close> keeps between
  invocations, and a trace of every effect (events dispatched, timers set, console lines,
  clicks).  Setting \<^verbatim>\<open>innerText\<close> or \<^verbatim>\<open>value\<close> stores the string, and reading it
  gives the stored string back.
\<close>

datatype dom_event = EvInput | EvChange | EvCompositionEnd

datatype log_entry =
    WarnMismatch string     \<comment> \<open>fewer output segments than input lines; with the trimmed input line\<close>
  | WarnExtra string        \<comment> \<open>an extra output segment is appended; with the segment\<close>
  | WarnToneMissing         \<comment> \<open>the tone select element was not found\<close>
  | LogToneSet string       \<comment> \<open>\<^verbatim>\<open>Tone set to: ...\<close>\<close>
  | ErrClipboard            \<comment> \<open>the Clipboard API rejected the write\<close>
  | ErrFallback             \<comment> \<open>\<^verbatim>\<open>execCommand\<close> threw\<close>

datatype write_outcome = Resolves | Rejects

datatype exec_outcome = ExecReturns bool | ExecThrows

record page =
  hostname :: string                          \<comment> \<open>\<^verbatim>\<open>window.location.hostname\<close>\<close>
  input_ta :: "string option"                 \<comment> \<open>\<^verbatim>\<open>innerHTML\<close> of \<^verbatim>\<open>#tta_input_ta\<close>\<close>
  output_ta :: "string option"                \<comment> \<open>\<^verbatim>\<open>innerText\<close> of \<^verbatim>\<open>#tta_output_ta\<close>\<close>
  tonesl :: "string option"                   \<comment> \<open>\<^verbatim>\<open>value\<close> of \<^verbatim>\<open>#tta_tonesl\<close>\<close>
  revIcon :: "nat option"                     \<comment> \<open>clicks received by \<^verbatim>\<open>div#tta_revIcon\<close>\<close>
  lastProcessedInputHTML :: string
  lastProcessedOutputText :: string
  output_events :: "dom_event list"           \<comment> \<open>dispatched on \<^verbatim>\<open>#tta_output_ta\<close>\<close>
  tone_events :: "dom_event list"             \<comment> \<open>dispatched on \<^verbatim>\<open>#tta_tonesl\<close>\<close>
  timeouts :: "nat list"                      \<comment> \<open>delays of the \<^verbatim>\<open>setTimeout\<close> retries, in ms\<close>
  console :: "log_entry list"
  clipboard_api :: "write_outcome option"     \<comment> \<open>\<^verbatim>\<open>navigator.clipboard.writeText\<close>, and how its promise settles\<close>
  exec_copy :: exec_outcome                   \<comment> \<open>what \<^verbatim>\<open>document.execCommand('copy')\<close> does\<close>
  body_textareas :: "string list"             \<comment> \<open>the temporary text areas under \<^verbatim>\<open>document.body\<close>\<close>
  api_writes :: "string list"                 \<comment> \<open>texts passed to \<^verbatim>\<open>writeText\<close>\<close>
  fallback_copies :: "string list"            \<comment> \<open>texts \<^verbatim>\<open>fallbackCopyText\<close> was called with\<close>
  clipboard :: string                         \<comment> \<open>the content of the system clipboard\<close>

subsection \<open>Line-break restoration\<close>

text \<open>Lines 176 to 178: the input lines.\<close>

definition inputLines :: "string \<Rightarrow> string list" where
  "inputLines currentInputHTML = split_nl (replace_br currentInputHTML)"

text \<open>Line 179: \<^verbatim>\<open>inputLines.every(line => line.trim() === '')\<close>.\<close>

definition all_blank :: "string list \<Rightarrow> bool" where
  "all_blank ls = list_all (\<lambda>line. trim line = []) ls"

text \<open>Lines 188 to 203: the output segments.\<close>

definition outputSegments :: "string \<Rightarrow> string list" where
  "outputSegments currentOutputText =
     (let trimmedOutputText = trim currentOutputText;
          segs =
            (if length trimmedOutputText > 0
             then (let m = match_sentences trimmedOutputText;
                       m' = (if m = [] then [trimmedOutputText] else m)
                   in filter (\<lambda>s. length s > 0) (map trim m'))
             else [])
      in if length segs = 0 \<and> length trimmedOutputText > 0 then [trimmedOutputText] else segs)"

text \<open>
  Lines 208 to 223: the loop over the input lines, from the line at hand on.  The result
  is the restored array, the output index and the console.
\<close>

fun correlate ::
  "string list \<Rightarrow> string list \<Rightarrow> nat \<Rightarrow> string list \<Rightarrow> log_entry list
     \<Rightarrow> string list \<times> nat \<times> log_entry list" where
  "correlate [] segs outputIndex restored lg = (restored, outputIndex, lg)"
| "correlate (line # rest) segs outputIndex restored lg =
     (let inputLineTrimmed = trim line in
      if inputLineTrimmed = [] then correlate rest segs outputIndex (restored @ [[]]) lg
      else if outputIndex < length segs
        then correlate rest segs (Suc outputIndex) (restored @ [segs ! outputIndex]) lg
        else correlate rest segs outputIndex (restored @ [[]])
               (lg @ [WarnMismatch inputLineTrimmed]))"

text \<open>Lines 230 to 243: the last index below \<open>k\<close> whose entry is not empty.\<close>

fun find_spot :: "string list \<Rightarrow> nat \<Rightarrow> nat option" where
  "find_spot restored 0 = None"
| "find_spot restored (Suc k) = (if restored ! k \<noteq> [] then Some k else find_spot restored k)"

text \<open>Lines 233 to 239: a space goes between two texts unless one of them brings its own.\<close>

definition careful_concat :: "string \<Rightarrow> string \<Rightarrow> string" where
  "careful_concat a b =
     (if length a > 0 \<and> length b > 0 \<and> \<not> is_space (last a) \<and> \<not> is_space (hd b)
      then a @ '' '' @ b else a @ b)"

text \<open>Lines 227 to 249: the output segments that no input line took.\<close>

function append_extras ::
  "string list \<Rightarrow> nat \<Rightarrow> string list \<Rightarrow> log_entry list \<Rightarrow> string list \<times> log_entry list" where
  "append_extras segs outputIndex restored lg =
     (if outputIndex < length segs
      then (let lg' = lg @ [WarnExtra (segs ! outputIndex)] in
            case find_spot restored (length restored) of
              Some k \<Rightarrow>
                append_extras segs (Suc outputIndex)
                  (restored[k := careful_concat (restored ! k) (segs ! outputIndex)]) lg'
            | None \<Rightarrow>
                append_extras segs (Suc outputIndex) (restored @ [segs ! outputIndex]) lg')
      else (restored, lg))"
  by pat_completeness auto
termination
  by (relation "measure (\<lambda>(segs, outputIndex, restored, lg). length segs - outputIndex)") auto

declare append_extras.simps [simp del]

text \<open>Lines 205 to 249: the restored array, and the console after the two loops.\<close>

definition restore :: "string list \<Rightarrow> string list \<Rightarrow> log_entry list \<Rightarrow> string list \<times> log_entry list" where
  "restore ls segs lg =
     (case correlate ls segs 0 [] lg of
        (restored, outputIndex, lg') \<Rightarrow> append_extras segs outputIndex restored lg')"

definition restoredOutputArray :: "string \<Rightarrow> string \<Rightarrow> string list" where
  "restoredOutputArray currentInputHTML currentOutputText =
     fst (restore (inputLines currentInputHTML) (outputSegments currentOutputText) [])"

text \<open>Lines 254 to 259: a line with an \<^verbatim>\<open>@\<close> loses the spaces after its full stops.\<close>

definition fix_email_line :: "string \<Rightarrow> string" where
  "fix_email_line l = (if str_includes l ''@'' then strip_dot_space l else l)"

text \<open>Lines 251 to 260.\<close>

definition post_process :: "string list \<Rightarrow> string" where
  "post_process restored =
     (let restoredOutput = join_nl restored;
          finalOutputLines = map fix_email_line (split_nl restoredOutput)
      in join_nl finalOutputLines)"

definition processedOutput :: "string \<Rightarrow> string \<Rightarrow> string" where
  "processedOutput currentInputHTML currentOutputText =
     post_process (restoredOutputArray currentInputHTML currentOutputText)"

text \<open>Lines 146 to 153.\<close>

definition triggerOutputEvents :: "page \<Rightarrow> page" where
  "triggerOutputEvents p =
     p\<lparr>output_events := output_events p @ [EvInput, EvChange, EvCompositionEnd]\<rparr>"

text \<open>Lines 158 to 265.\<close>

definition processTranslationLineBreaks :: "page \<Rightarrow> page" where
  "processTranslationLineBreaks p =
     (case (input_ta p, output_ta p) of
        (Some currentInputHTML, Some currentOutputText) \<Rightarrow>
          if currentInputHTML = lastProcessedInputHTML p
             \<and> currentOutputText = lastProcessedOutputText p
          then p
          else
            (let p1 = p\<lparr>lastProcessedInputHTML := currentInputHTML,
                        lastProcessedOutputText := currentOutputText\<rparr>;
                 ls = inputLines currentInputHTML
             in if all_blank ls
                then (if currentOutputText \<noteq> []
                      then triggerOutputEvents (p1\<lparr>output_ta := Some []\<rparr>)
                      else p1)
                else
                  (case restore ls (outputSegments currentOutputText) (console p1) of
                     (restored, lg) \<Rightarrow>
                       (let p2 = p1\<lparr>console := lg\<rparr>;
                            result = post_process restored
                        in if currentOutputText \<noteq> result
                           then triggerOutputEvents (p2\<lparr>output_ta := Some result\<rparr>)
                           else p2)))
      | _ \<Rightarrow> p\<lparr>timeouts := timeouts p @ [500]\<rparr>)"

subsection \<open>Copying to the clipboard\<close>

text \<open>
  A function that can fail returns the page together with the exception that leaves it,
  if any.  A promise is followed until it settles: a rejection is the exception its
  \<^verbatim>\<open>catch\<close> handler receives.
\<close>

datatype exn = ClipboardRejected | ExecCommandError

text \<open>\<^verbatim>\<open>navigator.clipboard.writeText(text)\<close>, where the Clipboard API is present.\<close>

definition writeText :: "string \<Rightarrow> page \<Rightarrow> page \<times> exn option" where
  "writeText text p =
     (let p1 = p\<lparr>api_writes := api_writes p @ [text]\<rparr> in
      case clipboard_api p of
        Some Resolves \<Rightarrow> (p1\<lparr>clipboard := text\<rparr>, None)
      | _ \<Rightarrow> (p1, Some ClipboardRejected))"

text \<open>\<^verbatim>\<open>document.execCommand('copy')\<close>, with the text area of \<open>text\<close> selected.\<close>

definition execCommand_copy :: "string \<Rightarrow> page \<Rightarrow> page \<times> exn option" where
  "execCommand_copy text p =
     (case exec_copy p of
        ExecReturns ok \<Rightarrow> (if ok then p\<lparr>clipboard := text\<rparr> else p, None)
      | ExecThrows \<Rightarrow> (p, Some ExecCommandError))"

text \<open>Lines 44 to 62.\<close>

definition fallbackCopyText :: "string \<Rightarrow> page \<Rightarrow> page \<times> exn option" where
  "fallbackCopyText text p =
     (let p1 = p\<lparr>fallback_copies := fallback_copies p @ [text],
                 body_textareas := body_textareas p @ [text]\<rparr>;
          (p2, thrown) =
            (case execCommand_copy text p1 of
               (q, Some err) \<Rightarrow> (q\<lparr>console := console q @ [ErrFallback]\<rparr>, None)
             | (q, None) \<Rightarrow> (q, None))
      in (p2\<lparr>body_textareas := butlast (body_textareas p2)\<rparr>, thrown))"

text \<open>Lines 29 to 38.\<close>

definition copyPlainText :: "string \<Rightarrow> page \<Rightarrow> page \<times> exn option" where
  "copyPlainText text p =
     (if clipboard_api p \<noteq> None
      then (case writeText text p of
              (q, Some err) \<Rightarrow> fallbackCopyText text (q\<lparr>console := console q @ [ErrClipboard]\<rparr>)
            | (q, None) \<Rightarrow> (q, None))
      else fallbackCopyText text p)"

subsection \<open>Keyboard shortcuts and the tone\<close>

text \<open>Lines 68 to 74.\<close>

definition getTranslatedText :: "page \<Rightarrow> string option" where
  "getTranslatedText p = (case output_ta p of Some innerText \<Rightarrow> Some innerText | None \<Rightarrow> None)"

text \<open>Lines 18 to 22, for the swap button: a click is counted.\<close>

definition clickElement_revIcon :: "page \<Rightarrow> page" where
  "clickElement_revIcon p =
     (case revIcon p of Some n \<Rightarrow> p\<lparr>revIcon := Some (Suc n)\<rparr> | None \<Rightarrow> p)"

text \<open>Lines 405 to 421.\<close>

definition selectTone :: "string \<Rightarrow> page \<Rightarrow> page" where
  "selectTone toneText p =
     (if \<not> str_includes (hostname p) ''bing.com'' then p
      else case tonesl p of
             None \<Rightarrow> p\<lparr>console := console p @ [WarnToneMissing]\<rparr>
           | Some v \<Rightarrow>
               if v = toneText then p
               else p\<lparr>tonesl := Some toneText,
                      tone_events := tone_events p @ [EvChange],
                      console := console p @ [LogToneSet toneText]\<rparr>)"

record key_event =
  altKey :: bool
  key :: string
  defaultPrevented :: bool

text \<open>Lines 83 to 89.\<close>

definition on_alt_z :: "key_event \<times> page \<Rightarrow> key_event \<times> page" where
  "on_alt_z = (\<lambda>(event, p).
     if altKey event \<and> key event = ''z''
     then (let event' = event\<lparr>defaultPrevented := True\<rparr> in
           case getTranslatedText p of
             Some translatedText \<Rightarrow>
               if translatedText \<noteq> []
               then (event', fst (copyPlainText (trim translatedText) p))
               else (event', p)
           | None \<Rightarrow> (event', p))
     else (event, p))"

text \<open>Lines 92 to 96.\<close>

definition on_alt_s :: "key_event \<times> page \<Rightarrow> key_event \<times> page" where
  "on_alt_s = (\<lambda>(event, p).
     if altKey event \<and> key event = ''s''
     then (event\<lparr>defaultPrevented := True\<rparr>, clickElement_revIcon p)
     else (event, p))"

text \<open>Lines 99 to 115.\<close>

definition toggle_tone :: "page \<Rightarrow> page" where
  "toggle_tone p =
     (case tonesl p of
        Some currentTone \<Rightarrow>
          if currentTone = ''Casual'' then selectTone ''Formal'' p
          else if currentTone = ''Formal'' then selectTone ''Casual'' p
          else selectTone ''Casual'' p
      | None \<Rightarrow> p\<lparr>console := console p @ [WarnToneMissing]\<rparr>)"

definition on_alt_a :: "key_event \<times> page \<Rightarrow> key_event \<times> page" where
  "on_alt_a = (\<lambda>(event, p).
     if altKey event \<and> key event = ''a''
     then (event\<lparr>defaultPrevented := True\<rparr>, toggle_tone p)
     else (event, p))"

text \<open>
  Lines 81 to 116: the three tests, one after the other.  \<^verbatim>\<open>copyPlainText\<close> lets no
  exception out, so the handler always goes on to the second and third test.
\<close>

definition handleKeydown :: "key_event \<Rightarrow> page \<Rightarrow> key_event \<times> page" where
  "handleKeydown event p = on_alt_a (on_alt_s (on_alt_z (event, p)))"

subsection \<open>The page when the script starts\<close>

text \<open>
  Lines 124 and 125: the two retained strings start empty.  The elements are those of
  the translator page, with the given input markup and output text.
\<close>

definition start_page :: "string \<Rightarrow> string \<Rightarrow> page" where
  "start_page html text =
     \<lparr>hostname = ''www.bing.com'', input_ta = Some html, output_ta = Some text,
      tonesl = Some ''Standard'', revIcon = Some 0,
      lastProcessedInputHTML = [], lastProcessedOutputText = [],
      output_events = [], tone_events = [], timeouts = [], console = [],
      clipboard_api = Some Resolves, exec_copy = ExecReturns True,
      body_textareas = [], api_writes = [], fallback_copies = [], clipboard = []\<rparr>"

section \<open>Notions and lemmas for the line-break restoration\<close>

definition nonblank :: "string list \<Rightarrow> string list" where
  "nonblank ls = filter (\<lambda>l. trim l \<noteq> []) ls"

definition line_rank :: "string list \<Rightarrow> nat \<Rightarrow> nat" where
  "line_rank ls i = length (nonblank (take i ls))"

fun aligned :: "string list \<Rightarrow> string list \<Rightarrow> string list" where
  "aligned [] S = []"
| "aligned (l # ls) S =
     (if trim l = [] then [] # aligned ls S
      else (case S of [] \<Rightarrow> [] # aligned ls [] | s # S' \<Rightarrow> s # aligned ls S'))"

lemma correlate_closed:
  "oi \<le> length segs \<Longrightarrow>
   correlate ls segs oi r lg =
     (r @ aligned ls (drop oi segs),
      min (length segs) (oi + length (nonblank ls)),
      lg @ map (\<lambda>l. WarnMismatch (trim l)) (drop (length segs - oi) (nonblank ls)))"
proof (induction ls arbitrary: oi r lg)
  case Nil
  then show ?case by (simp add: nonblank_def)
next
  case (Cons l ls)
  show ?case
  proof (cases "trim l = []")
    case True
    with Cons show ?thesis by (simp add: nonblank_def)
  next
    case False
    show ?thesis
    proof (cases "oi < length segs")
      case True
      then have d: "length segs - oi = Suc (length segs - Suc oi)" by simp
      from True have d2: "drop oi segs = segs ! oi # drop (Suc oi) segs"
        by (simp add: Cons_nth_drop_Suc)
      from True have "Suc oi \<le> length segs" by simp
      from Cons.IH [OF this] False True show ?thesis
        by (simp add: nonblank_def d d2)
    next
      case ge: False
      with Cons.prems have "oi = length segs" by simp
      with Cons.IH [OF Cons.prems] False show ?thesis
        by (simp add: nonblank_def)
    qed
  qed
qed

lemma length_aligned: "length (aligned ls S) = length ls"
  by (induction ls arbitrary: S) (simp_all split: list.splits)

lemma aligned_nth:
  "i < length ls \<Longrightarrow>
   aligned ls S ! i =
     (if trim (ls ! i) = [] then []
      else if line_rank ls i < length S then S ! line_rank ls i else [])"
proof (induction ls arbitrary: i S)
  case Nil
  then show ?case by simp
next
  case (Cons l ls)
  show ?case
  proof (cases i)
    case 0
    then show ?thesis by (simp add: line_rank_def nonblank_def split: list.splits)
  next
    case (Suc j)
    with Cons.prems have j: "j < length ls" by simp
    show ?thesis
    proof (cases S)
      case Nil
      with Cons.IH [OF j, of "[]"] Suc show ?thesis
        by (simp add: line_rank_def nonblank_def)
    next
      case (Cons s S')
      with Cons.IH [OF j, of S] Cons.IH [OF j, of S'] Suc show ?thesis
        by (simp add: line_rank_def nonblank_def)
    qed
  qed
qed

lemma aligned_append:
  "aligned (xs @ ys) S = aligned xs S @ aligned ys (drop (length (nonblank xs)) S)"
  by (induction xs arbitrary: S) (simp_all add: nonblank_def split: list.splits)

lemma aligned_blank: "nonblank ys = [] \<Longrightarrow> aligned ys S = replicate (length ys) []"
  by (induction ys) (simp_all add: nonblank_def split: if_splits)

lemma find_spot_Some:
  "find_spot r n = Some k \<longleftrightarrow> k < n \<and> r ! k \<noteq> [] \<and> (\<forall>j. k < j \<and> j < n \<longrightarrow> r ! j = [])"
proof (induction n)
  case 0
  then show ?case by simp
next
  case (Suc n)
  show ?case
  proof (cases "r ! n = []")
    case True
    have "(k < Suc n \<and> r ! k \<noteq> [] \<and> (\<forall>j. k < j \<and> j < Suc n \<longrightarrow> r ! j = [])) \<longleftrightarrow>
          (k < n \<and> r ! k \<noteq> [] \<and> (\<forall>j. k < j \<and> j < n \<longrightarrow> r ! j = []))"
      using True by (metis less_Suc_eq)
    with True Suc show ?thesis by simp
  next
    case False
    have "(k < Suc n \<and> r ! k \<noteq> [] \<and> (\<forall>j. k < j \<and> j < Suc n \<longrightarrow> r ! j = [])) \<longleftrightarrow> k = n"
    proof
      assume a: "k < Suc n \<and> r ! k \<noteq> [] \<and> (\<forall>j. k < j \<and> j < Suc n \<longrightarrow> r ! j = [])"
      show "k = n"
      proof (rule ccontr)
        assume "k \<noteq> n"
        with a have "k < n \<and> n < Suc n" by simp
        with a have "r ! n = []" by blast
        with False show False by simp
      qed
    next
      assume "k = n"
      with False show "k < Suc n \<and> r ! k \<noteq> [] \<and> (\<forall>j. k < j \<and> j < Suc n \<longrightarrow> r ! j = [])"
        by (auto simp: less_Suc_eq)
    qed
    with False show ?thesis by auto
  qed
qed

lemma nth_after_entry:
  assumes "length r1 < j" and "j < Suc (length r1 + n)"
  shows "(r1 @ e # replicate n []) ! j = []"
proof -
  from assms have a: "\<not> j < length r1" and b: "j - length r1 \<noteq> 0" and c: "j - length r1 - 1 < n"
    by arith+
  have "(r1 @ e # replicate n []) ! j = (e # replicate n []) ! (j - length r1)"
    using a by (simp only: nth_append if_False)
  also have "\<dots> = replicate n [] ! (j - length r1 - 1)"
    using b by (simp only: nth_Cons' if_False)
  also have "\<dots> = []"
    using c by (rule nth_replicate)
  finally show ?thesis .
qed

lemma find_spot_append:
  assumes "e \<noteq> []"
  shows "find_spot (r1 @ e # replicate n []) (Suc (length r1 + n)) = Some (length r1)"
proof -
  have 1: "length r1 < Suc (length r1 + n)" by simp
  have 2: "(r1 @ e # replicate n []) ! length r1 \<noteq> []"
    using assms by simp
  have 3: "\<forall>j. length r1 < j \<and> j < Suc (length r1 + n) \<longrightarrow> (r1 @ e # replicate n []) ! j = []"
    using nth_after_entry by blast
  from 1 2 3 show ?thesis
    by (simp only: find_spot_Some simp_thms)
qed

lemma careful_concat_nonempty: "a \<noteq> [] \<Longrightarrow> careful_concat a b \<noteq> []"
  by (simp add: careful_concat_def)

lemma append_extras_closed:
  "e \<noteq> [] \<Longrightarrow>
   append_extras segs oi (r1 @ e # replicate n []) lg =
     (r1 @ foldl careful_concat e (drop oi segs) # replicate n [],
      lg @ map WarnExtra (drop oi segs))"
proof (induction "length segs - oi" arbitrary: oi e lg)
  case 0
  then have "length segs \<le> oi" by simp
  then show ?case by (simp add: append_extras.simps [of segs oi])
next
  case (Suc d)
  then have lt: "oi < length segs" and d: "d = length segs - Suc oi" by simp_all
  have dr: "drop oi segs = segs ! oi # drop (Suc oi) segs"
    using lt by (simp add: Cons_nth_drop_Suc)
  let ?e = "careful_concat e (segs ! oi)"
  have ne: "?e \<noteq> []"
    using Suc.prems by (rule careful_concat_nonempty)
  have "append_extras segs oi (r1 @ e # replicate n []) lg =
        append_extras segs (Suc oi) (r1 @ ?e # replicate n []) (lg @ [WarnExtra (segs ! oi)])"
    using lt find_spot_append [OF Suc.prems, of r1 n]
    by (simp add: append_extras.simps [of segs oi])
  also have "\<dots> = (r1 @ foldl careful_concat ?e (drop (Suc oi) segs) # replicate n [],
      (lg @ [WarnExtra (segs ! oi)]) @ map WarnExtra (drop (Suc oi) segs))"
    by (rule Suc.hyps(1) [OF d ne])
  finally show ?case unfolding dr by simp
qed

lemma append_extras_none:
  "length segs \<le> oi \<Longrightarrow> append_extras segs oi r lg = (r, lg)"
  by (simp add: append_extras.simps [of segs oi])

text \<open>restore when there are no more segments than non-blank lines\<close>

lemma restore_fewer:
  "length segs \<le> length (nonblank ls) \<Longrightarrow>
   restore ls segs lg =
     (aligned ls segs,
      lg @ map (\<lambda>l. WarnMismatch (trim l)) (drop (length segs) (nonblank ls)))"
  by (simp add: restore_def correlate_closed append_extras_none min_def)

lemma last_nonblank_split:
  assumes "nonblank ls \<noteq> []"
  obtains ls1 l ls2 where "ls = ls1 @ l # ls2" and "trim l \<noteq> []" and "nonblank ls2 = []"
proof -
  from assms have "\<exists>x\<in>set ls. trim x \<noteq> []"
    by (auto simp: nonblank_def filter_empty_conv)
  then obtain ls1 l ls2 where "ls = ls1 @ l # ls2" "trim l \<noteq> []" "\<forall>z\<in>set ls2. \<not> trim z \<noteq> []"
    by (rule split_list_last_propE)
  then show ?thesis
    using that by (simp add: nonblank_def filter_empty_conv)
qed

lemma restore_more:
  assumes ls: "ls = ls1 @ l # ls2" and l: "trim l \<noteq> []" and ls2: "nonblank ls2 = []"
    and m: "m = length (nonblank ls1)" and len: "m < length segs" and ne: "[] \<notin> set segs"
  shows "restore ls segs lg =
     (aligned ls1 segs @ foldl careful_concat (segs ! m) (drop (Suc m) segs) # replicate (length ls2) [],
      lg @ map WarnExtra (drop (Suc m) segs))"
proof -
  have nb: "length (nonblank ls) = Suc m"
    using ls l ls2 m by (simp add: nonblank_def)
  have dr: "drop (length (nonblank ls1)) segs = segs ! m # drop (Suc m) segs"
    using len m by (simp add: Cons_nth_drop_Suc)
  have al: "aligned ls segs = aligned ls1 segs @ segs ! m # replicate (length ls2) []"
    using l by (simp add: ls aligned_append dr aligned_blank [OF ls2])
  have e: "segs ! m \<noteq> []"
    using ne len by (metis nth_mem)
  have "correlate ls segs 0 [] lg = (aligned ls segs, Suc m, lg)"
    using len by (simp add: correlate_closed nb min_def)
  then have "restore ls segs lg = append_extras segs (Suc m) (aligned ls segs) lg"
    by (simp add: restore_def)
  also have "\<dots> = (aligned ls1 segs @ foldl careful_concat (segs ! m) (drop (Suc m) segs) # replicate (length ls2) [],
      lg @ map WarnExtra (drop (Suc m) segs))"
    unfolding al by (rule append_extras_closed [OF e])
  finally show ?thesis .
qed

lemma line_rank_prefix: "i \<le> length ls1 \<Longrightarrow> line_rank (ls1 @ ls2) i = line_rank ls1 i"
  by (simp add: line_rank_def)

lemma line_rank_less:
  "i < length ls \<Longrightarrow> trim (ls ! i) \<noteq> [] \<Longrightarrow> line_rank ls i < length (nonblank ls)"
proof -
  assume i: "i < length ls" and t: "trim (ls ! i) \<noteq> []"
  have "ls = take i ls @ ls ! i # drop (Suc i) ls"
    using i by (simp add: id_take_nth_drop [symmetric])
  then have "nonblank ls = nonblank (take i ls) @ nonblank (ls ! i # drop (Suc i) ls)"
    by (metis filter_append nonblank_def)
  with t show ?thesis
    by (simp add: line_rank_def nonblank_def)
qed

lemma restore_length:
  assumes "[] \<notin> set segs"
  shows "nonblank ls \<noteq> [] \<Longrightarrow> length (fst (restore ls segs lg)) = length ls"
proof -
  assume nb: "nonblank ls \<noteq> []"
  show ?thesis
  proof (cases "length segs \<le> length (nonblank ls)")
    case True
    then show ?thesis by (simp add: restore_fewer length_aligned)
  next
    case False
    from nb obtain ls1 l ls2 where d: "ls = ls1 @ l # ls2" "trim l \<noteq> []" "nonblank ls2 = []"
      by (rule last_nonblank_split)
    then have "length (nonblank ls) = Suc (length (nonblank ls1))"
      by (simp add: nonblank_def)
    with False have "length (nonblank ls1) < length segs" by simp
    from restore_more [OF d refl this assms] show ?thesis
      by (simp add: d(1) length_aligned)
  qed
qed

lemma restore_nth:
  assumes ne: "[] \<notin> set segs" and nb: "nonblank ls \<noteq> []" and i: "i < length ls"
  shows "fst (restore ls segs lg) ! i =
     (if trim (ls ! i) = [] then []
      else if length segs \<le> line_rank ls i then []
      else if Suc (line_rank ls i) = length (nonblank ls)
        then foldl careful_concat (segs ! line_rank ls i) (drop (length (nonblank ls)) segs)
        else segs ! line_rank ls i)"
proof (cases "length segs \<le> length (nonblank ls)")
  case True
  have "drop (length (nonblank ls)) segs = []"
    using True by simp
  then show ?thesis
    using True i by (simp add: restore_fewer aligned_nth)
next
  case False
  from nb obtain ls1 l ls2 where d: "ls = ls1 @ l # ls2" "trim l \<noteq> []" "nonblank ls2 = []"
    by (rule last_nonblank_split)
  let ?m = "length (nonblank ls1)"
  have nbl: "length (nonblank ls) = Suc ?m"
    using d by (simp add: nonblank_def)
  with False have len: "?m < length segs" by simp
  note r = restore_more [OF d refl len ne, of lg]
  consider (before) "i < length ls1" | (at) "i = length ls1" | (after) "length ls1 < i"
    by arith
  then show ?thesis
  proof cases
    case before
    then have li: "ls ! i = ls1 ! i" and rk: "line_rank ls i = line_rank ls1 i"
      by (simp_all add: d(1) nth_append line_rank_prefix)
    have "fst (restore ls segs lg) ! i = aligned ls1 segs ! i"
      using before by (simp add: r nth_append length_aligned)
    also have "\<dots> = (if trim (ls1 ! i) = [] then []
        else if line_rank ls1 i < length segs then segs ! line_rank ls1 i else [])"
      using before by (rule aligned_nth)
    finally have a: "fst (restore ls segs lg) ! i = (if trim (ls1 ! i) = [] then []
        else if line_rank ls1 i < length segs then segs ! line_rank ls1 i else [])" .
    show ?thesis
    proof (cases "trim (ls1 ! i) = []")
      case True
      with a li show ?thesis by simp
    next
      case nbi: False
      from line_rank_less [OF before nbi] have "line_rank ls1 i < ?m" .
      with a nbi len li rk nbl show ?thesis by simp
    qed
  next
    case at
    then have "ls ! i = l" and "line_rank ls i = ?m"
      by (simp_all add: d(1) line_rank_def)
    with at d(2) len nbl show ?thesis
      by (simp add: r nth_append length_aligned)
  next
    case after
    with i d(1) have "ls ! i \<in> set ls2"
      by (simp add: nth_append nth_Cons' )
    with d(3) have "trim (ls ! i) = []"
      by (auto simp: nonblank_def filter_empty_conv)
    moreover have "fst (restore ls segs lg) ! i = []"
    proof -
      have "length (aligned ls1 segs) < i" and "i < Suc (length (aligned ls1 segs) + length ls2)"
        using after i d(1) by (simp_all add: length_aligned)
      then show ?thesis
        unfolding r fst_conv by (rule nth_after_entry)
    qed
    ultimately show ?thesis by simp
  qed
qed

lemma all_blank_nonblank: "all_blank ls \<longleftrightarrow> nonblank ls = []"
  by (auto simp: all_blank_def nonblank_def list_all_iff filter_empty_conv)

lemma outputSegments_nonempty: "[] \<notin> set (outputSegments text)"
proof -
  have f: "[] \<notin> set (filter (\<lambda>s. length s > 0) xs)" for xs :: "string list"
    by simp
  show ?thesis
    unfolding outputSegments_def Let_def
    by (simp only: f set_simps split: if_split) simp
qed

lemma split_nl_line: "CHR 0x0A \<notin> set x \<Longrightarrow> split_nl (x @ CHR 0x0A # rest) = x # split_nl rest"
  by (induction x) auto

lemma split_nl_single: "CHR 0x0A \<notin> set x \<Longrightarrow> split_nl x = [x]"
  by (induction x) auto

lemma split_join_nl:
  "xs \<noteq> [] \<Longrightarrow> \<forall>x\<in>set xs. CHR 0x0A \<notin> set x \<Longrightarrow> split_nl (join_nl xs) = xs"
proof (induction xs rule: join_nl.induct)
  case 1
  then show ?case by simp
next
  case (2 l)
  then show ?case by (simp add: split_nl_single)
next
  case (3 l v va)
  then show ?case by (simp add: split_nl_line)
qed



lemma set_strip_dot_space: "set (strip_dot_space l) \<subseteq> set l"
proof (induction l rule: strip_dot_space.induct)
  case 1
  then show ?case by simp
next
  case (2 c cs)
  show ?case
  proof (cases "c = CHR ''.'' \<and> cs \<noteq> [] \<and> is_space (hd cs)")
    case True
    with 2(1) have "set (strip_dot_space (dropWhile is_space cs)) \<subseteq> set cs"
      using set_dropWhileD by fastforce
    with True show ?thesis by auto
  next
    case False
    with 2(2) show ?thesis by auto
  qed
qed

lemma set_fix_email_line: "set (fix_email_line l) \<subseteq> set l"
  using set_strip_dot_space by (simp add: fix_email_line_def)

lemma set_careful_concat: "set (careful_concat a b) \<subseteq> insert CHR '' '' (set a \<union> set b)"
  by (auto simp: careful_concat_def)

lemma set_foldl_careful_concat:
  "set (foldl careful_concat a bs) \<subseteq> insert CHR '' '' (set a \<union> \<Union> (set ` set bs))"
proof (induction bs arbitrary: a)
  case Nil
  then show ?case by auto
next
  case (Cons b bs)
  have "set (foldl careful_concat (careful_concat a b) bs)
        \<subseteq> insert CHR '' '' (set (careful_concat a b) \<union> \<Union> (set ` set bs))"
    by (rule Cons.IH)
  with set_careful_concat [of a b] show ?case by auto
qed

lemma restore_chars:
  assumes ne: "[] \<notin> set segs" and nb: "nonblank ls \<noteq> []"
    and e: "e \<in> set (fst (restore ls segs lg))" and c: "c \<in> set e"
  shows "c = CHR '' '' \<or> (\<exists>s\<in>set segs. c \<in> set s)"
proof -
  from e obtain i where i: "i < length ls" and ei: "e = fst (restore ls segs lg) ! i"
    by (auto simp: in_set_conv_nth restore_length [OF ne nb])
  let ?r = "line_rank ls i"
  from c have "e \<noteq> []" by auto
  with ei restore_nth [OF ne nb i, of lg]
  have lt: "?r < length segs"
    and cases: "e = segs ! ?r \<or> e = foldl careful_concat (segs ! ?r) (drop (length (nonblank ls)) segs)"
    by (auto split: if_splits)
  from lt have m: "segs ! ?r \<in> set segs" by simp
  from cases show ?thesis
  proof
    assume "e = segs ! ?r"
    with c m show ?thesis by auto
  next
    assume "e = foldl careful_concat (segs ! ?r) (drop (length (nonblank ls)) segs)"
    with c set_foldl_careful_concat [of "segs ! ?r" "drop (length (nonblank ls)) segs"]
    have "c = CHR '' '' \<or> c \<in> set (segs ! ?r) \<or> (\<exists>s\<in>set (drop (length (nonblank ls)) segs). c \<in> set s)"
      by auto
    with m show ?thesis
      by (auto dest: in_set_dropD)
  qed
qed

lemma post_process_lines:
  assumes "xs \<noteq> []" and "\<forall>x\<in>set xs. CHR 0x0A \<notin> set x"
  shows "split_nl (post_process xs) = map fix_email_line xs"
proof -
  have "\<forall>x\<in>set (map fix_email_line xs). CHR 0x0A \<notin> set x"
    using assms(2) set_fix_email_line by fastforce
  moreover have "map fix_email_line xs \<noteq> []"
    using assms(1) by simp
  ultimately have "split_nl (join_nl (map fix_email_line xs)) = map fix_email_line xs"
    by (rule split_join_nl [rotated])
  then show ?thesis
    using assms by (simp add: post_process_def split_join_nl)
qed

lemma append_extras_log:
  "append_extras segs oi r lg =
     (fst (append_extras segs oi r []), lg @ map WarnExtra (drop oi segs))"
proof (induction "length segs - oi" arbitrary: oi r lg)
  case 0
  then have "length segs \<le> oi" by simp
  then show ?case by (simp add: append_extras_none)
next
  case (Suc n)
  then have lt: "oi < length segs" and n: "n = length segs - Suc oi" by simp_all
  have d: "drop oi segs = segs ! oi # drop (Suc oi) segs"
    using lt by (simp add: Cons_nth_drop_Suc)
  show ?case
  proof (cases "find_spot r (length r)")
    case None
    let ?r = "r @ [segs ! oi]"
    have a: "append_extras segs oi r lg = append_extras segs (Suc oi) ?r (lg @ [WarnExtra (segs ! oi)])"
      using lt None by (simp add: append_extras.simps [of segs oi r lg])
    have b: "append_extras segs oi r [] = append_extras segs (Suc oi) ?r [WarnExtra (segs ! oi)]"
      using lt None by (simp add: append_extras.simps [of segs oi r "[]"])
    show ?thesis
      unfolding a b d
      using Suc.hyps(1) [OF n, of ?r "lg @ [WarnExtra (segs ! oi)]"]
        Suc.hyps(1) [OF n, of ?r "[WarnExtra (segs ! oi)]"]
      by simp
  next
    case (Some k)
    let ?r = "r[k := careful_concat (r ! k) (segs ! oi)]"
    have a: "append_extras segs oi r lg = append_extras segs (Suc oi) ?r (lg @ [WarnExtra (segs ! oi)])"
      using lt Some by (simp add: append_extras.simps [of segs oi r lg])
    have b: "append_extras segs oi r [] = append_extras segs (Suc oi) ?r [WarnExtra (segs ! oi)]"
      using lt Some by (simp add: append_extras.simps [of segs oi r "[]"])
    show ?thesis
      unfolding a b d
      using Suc.hyps(1) [OF n, of ?r "lg @ [WarnExtra (segs ! oi)]"]
        Suc.hyps(1) [OF n, of ?r "[WarnExtra (segs ! oi)]"]
      by simp
  qed
qed

lemma restore_log:
  "restore ls segs lg = (fst (restore ls segs []), lg @ snd (restore ls segs []))"
proof -
  let ?a = "aligned ls segs" and ?i = "min (length segs) (length (nonblank ls))"
  let ?w = "map (\<lambda>l. WarnMismatch (trim l)) (drop (length segs) (nonblank ls))"
  have "restore ls segs lg = append_extras segs ?i ?a (lg @ ?w)"
    by (simp add: restore_def correlate_closed)
  moreover have "restore ls segs [] = append_extras segs ?i ?a ?w"
    by (simp add: restore_def correlate_closed)
  ultimately show ?thesis
    using append_extras_log [of segs ?i ?a "lg @ ?w"] append_extras_log [of segs ?i ?a ?w]
    by simp
qed

lemma process_resegment:
  assumes "input_ta p = Some html" and "output_ta p = Some text"
    and "\<not> (html = lastProcessedInputHTML p \<and> text = lastProcessedOutputText p)"
    and "\<not> all_blank (inputLines html)"
  shows "processTranslationLineBreaks p =
     (let p2 = p\<lparr>lastProcessedInputHTML := html, lastProcessedOutputText := text,
                 console := console p @ snd (restore (inputLines html) (outputSegments text) [])\<rparr>
      in if text \<noteq> processedOutput html text
         then p2\<lparr>output_ta := Some (processedOutput html text),
                 output_events := output_events p @ [EvInput, EvChange, EvCompositionEnd]\<rparr>
         else p2)"
proof -
  obtain r l where rl: "restore (inputLines html) (outputSegments text) [] = (r, l)"
    by (cases "restore (inputLines html) (outputSegments text) []")
  then have "restore (inputLines html) (outputSegments text) (console p) = (r, console p @ l)"
    using restore_log [of "inputLines html" "outputSegments text" "console p"] by simp
  with rl assms show ?thesis
    by (cases "html = lastProcessedInputHTML p")
      (simp_all add: processTranslationLineBreaks_def Let_def processedOutput_def
        restoredOutputArray_def triggerOutputEvents_def)
qed



lemma dropWhile_same: "xs = [] \<or> \<not> P (hd xs) \<Longrightarrow> dropWhile P xs = xs"
  by (cases xs) auto


lemma trim_wrap:
  assumes g: "\<forall>c\<in>set g. is_space c" and t: "\<forall>c\<in>set t. is_space c"
    and z: "z \<noteq> []" and h: "\<not> is_space (hd z)" and l: "\<not> is_space (last z)"
  shows "trim (g @ z @ t) = z"
proof -
  have "dropWhile is_space (g @ z @ t) = dropWhile is_space (z @ t)"
    using g by simp
  also have "\<dots> = z @ t"
    using z h by (intro dropWhile_same) simp
  finally have 1: "dropWhile is_space (g @ z @ t) = z @ t" .
  have "dropWhile is_space (rev t @ rev z) = dropWhile is_space (rev z)"
    using t by (intro dropWhile_append2) simp
  then have "dropWhile is_space (rev (z @ t)) = dropWhile is_space (rev z)"
    by simp
  also have "\<dots> = rev z"
    using z l by (intro dropWhile_same) (simp add: hd_rev)
  finally show ?thesis
    by (simp add: trim_def 1)
qed

lemma trim_same: "z \<noteq> [] \<Longrightarrow> \<not> is_space (hd z) \<Longrightarrow> \<not> is_space (last z) \<Longrightarrow> trim z = z"
  using trim_wrap [of "[]" "[]" z] by simp

lemma trim_ends:
  assumes "trim s \<noteq> []"
  shows "\<not> is_space (hd (trim s))" and "\<not> is_space (last (trim s))"
proof -
  let ?d = "dropWhile is_space s"
  let ?e = "dropWhile is_space (rev ?d)"
  from assms have e: "?e \<noteq> []" by (simp add: trim_def)
  then have he: "\<not> is_space (hd ?e)" by (rule hd_dropWhile)
  have d: "?d \<noteq> []"
  proof
    assume "?d = []"
    then have "?e = []" by (simp only: rev.simps dropWhile.simps)
    with e show False by contradiction
  qed
  then have hd: "\<not> is_space (hd ?d)" by (rule hd_dropWhile)
  from e obtain x where "x \<in> set (rev ?d)" "\<not> is_space x" by auto
  then have "last ?e = last (rev ?d)" by (rule dropWhile_last)
  with d have "last ?e = hd ?d" by (simp add: last_rev)
  with e hd show "\<not> is_space (hd (trim s))" by (simp add: trim_def hd_rev)
  from e he show "\<not> is_space (last (trim s))" by (simp add: trim_def last_rev)
qed

lemma trim_decomp: "\<exists>g t. s = g @ trim s @ t"
proof -
  let ?d = "dropWhile is_space s"
  have 1: "s = takeWhile is_space s @ ?d" by simp
  have "rev (takeWhile is_space (rev ?d) @ dropWhile is_space (rev ?d)) = rev (rev ?d)"
    by (simp only: takeWhile_dropWhile_id)
  then have "rev (dropWhile is_space (rev ?d)) @ rev (takeWhile is_space (rev ?d)) = ?d"
    by (simp only: rev_append rev_rev_ident)
  then have "?d = trim s @ rev (takeWhile is_space (rev ?d))"
    by (simp only: trim_def)
  with 1 have "s = takeWhile is_space s @ trim s @ rev (takeWhile is_space (rev ?d))"
    by simp
  then show ?thesis by blast
qed

lemma set_trim: "set (trim s) \<subseteq> set s"
proof -
  obtain g t where "s = g @ trim s @ t" using trim_decomp by blast
  then have "set s = set g \<union> set (trim s) \<union> set t"
    by (metis set_append sup_assoc)
  then show ?thesis by auto
qed



definition tight :: "string \<Rightarrow> bool" where
  "tight s \<longleftrightarrow> s \<noteq> [] \<and> \<not> is_space (hd s) \<and> \<not> is_space (last s)"







lemma tight_trim: "trim r \<noteq> [] \<Longrightarrow> tight (trim r)"
  by (simp add: tight_def trim_ends)


lemma match_sentences_none: "dropWhile is_term s = [] \<Longrightarrow> match_sentences s = []"
  by (subst match_sentences.simps) (simp only: Let_def simp_thms if_True)

lemma match_sentences_unfold:
  assumes "dropWhile is_term s \<noteq> []"
  shows "match_sentences s =
     (takeWhile (\<lambda>c. \<not> is_term c) (dropWhile is_term s)
        @ takeWhile is_term (dropWhile (\<lambda>c. \<not> is_term c) (dropWhile is_term s)))
     # match_sentences (dropWhile is_term (dropWhile (\<lambda>c. \<not> is_term c) (dropWhile is_term s)))"
  using assms by (subst match_sentences.simps) (simp only: Let_def simp_thms if_False)





lemma concat_match: "concat (match_sentences s) = dropWhile is_term s"
proof (induction s rule: match_sentences.induct)
  case (1 s)
  let ?s1 = "dropWhile is_term s"
  let ?r1 = "dropWhile (\<lambda>c. \<not> is_term c) ?s1"
  let ?r2 = "dropWhile is_term ?r1"
  show ?case
  proof (cases "?s1 = []")
    case True
    show ?thesis unfolding match_sentences_none [OF True] True by simp
  next
    case False
    have "concat (match_sentences ?r2) = dropWhile is_term ?r2"
      by (rule 1 [OF refl False refl refl refl refl])
    also have "\<dots> = ?r2"
      by (intro dropWhile_same) (metis hd_dropWhile)
    finally have ih: "concat (match_sentences ?r2) = ?r2" .
    have "concat (match_sentences s) =
        takeWhile (\<lambda>c. \<not> is_term c) ?s1 @ (takeWhile is_term ?r1 @ ?r2)"
      by (simp add: match_sentences_unfold [OF False] ih)
    also have "takeWhile is_term ?r1 @ ?r2 = ?r1"
      by (rule takeWhile_dropWhile_id)
    also have "takeWhile (\<lambda>c. \<not> is_term c) ?s1 @ ?r1 = ?s1"
      by (rule takeWhile_dropWhile_id)
    finally show ?thesis .
  qed
qed

lemma trim_nonblank:
  assumes c: "c \<in> set r" and n: "\<not> is_space c"
  shows "trim r \<noteq> []"
proof -
  let ?d = "dropWhile is_space r"
  from c n have d: "?d \<noteq> []" by auto
  then have "\<not> is_space (hd ?d)" by (rule hd_dropWhile)
  moreover from d have "hd ?d \<in> set (rev ?d)" by simp
  ultimately have "dropWhile is_space (rev ?d) \<noteq> []"
    unfolding dropWhile_eq_Nil_conv by blast
  then show ?thesis unfolding trim_def by simp
qed




lemma match_segments_nonempty:
  assumes Z: "trim text \<noteq> []" and m: "match_sentences (trim text) \<noteq> []"
  shows "filter (\<lambda>s. length s > 0) (map trim (match_sentences (trim text))) \<noteq> []"
proof
  let ?Z = "trim text"
  let ?m = "match_sentences ?Z"
  assume e: "filter (\<lambda>s. length s > 0) (map trim ?m) = []"
  have all: "trim r = []" if "r \<in> set ?m" for r
  proof (rule ccontr)
    assume "trim r \<noteq> []"
    with that have "trim r \<in> set (filter (\<lambda>s. length s > 0) (map trim ?m))" by simp
    with e show False by simp
  qed
  have ws: "is_space c" if r: "r \<in> set ?m" and c: "c \<in> set r" for r c
  proof (rule ccontr)
    assume n: "\<not> is_space c"
    from c n have "trim r \<noteq> []" by (rule trim_nonblank)
    with all [OF r] show False by contradiction
  qed
  let ?d = "dropWhile is_term ?Z"
  have d: "?d = concat ?m" by (simp only: concat_match)
  have dne: "?d \<noteq> []"
  proof
    assume "?d = []"
    then have "?m = []" by (rule match_sentences_none)
    with m show False by contradiction
  qed
  have "\<forall>c\<in>set ?d. is_space c"
    unfolding d using ws by auto
  moreover from dne have "last ?d \<in> set ?d" by (rule last_in_set)
  ultimately have sp: "is_space (last ?d)" by blast
  have "last ?d = last ?Z"
  proof -
    from dne have "hd ?d \<in> set ?d" by (rule hd_in_set)
    then have "hd ?d \<in> set ?Z" by (rule set_dropWhileD)
    moreover from dne have "\<not> is_term (hd ?d)" by (rule hd_dropWhile)
    ultimately show ?thesis by (rule dropWhile_last)
  qed
  with sp have "is_space (last ?Z)" by simp
  with trim_ends(2) [OF Z] show False by contradiction
qed

lemma outputSegments_eq:
  "outputSegments text =
     (if trim text = [] then []
      else if match_sentences (trim text) = [] then [trim text]
      else filter (\<lambda>s. length s > 0) (map trim (match_sentences (trim text))))"
proof (cases "trim text = []")
  case True
  then show ?thesis by (simp add: outputSegments_def)
next
  case Z: False
  then have "tight (trim text)" by (rule tight_trim)
  then have tt: "trim (trim text) = trim text" by (simp add: tight_def trim_same)
  show ?thesis
  proof (cases "match_sentences (trim text) = []")
    case True
    with Z tt show ?thesis by (simp add: outputSegments_def Let_def)
  next
    case False
    with Z match_segments_nonempty [OF Z False] show ?thesis
      by (simp add: outputSegments_def Let_def)
  qed
qed


lemma outputSegments_chars:
  assumes "s \<in> set (outputSegments text)"
  shows "set s \<subseteq> set text"
proof -
  let ?Z = "trim text"
  have z: "set ?Z \<subseteq> set text" by (rule set_trim)
  have raws: "set r \<subseteq> set ?Z" if "r \<in> set (match_sentences ?Z)" for r
  proof -
    from that have "set r \<subseteq> set (concat (match_sentences ?Z))" by auto
    also have "\<dots> \<subseteq> set ?Z"
      unfolding concat_match using set_dropWhileD by fastforce
    finally show ?thesis .
  qed
  from assms have "s = ?Z \<or> s \<in> set (map trim (match_sentences ?Z))"
    unfolding outputSegments_eq by (simp split: if_splits)
  then show ?thesis
  proof
    assume "s = ?Z"
    with z show ?thesis by simp
  next
    assume "s \<in> set (map trim (match_sentences ?Z))"
    then obtain r where r: "r \<in> set (match_sentences ?Z)" and s: "s = trim r" by auto
    have "set s \<subseteq> set r" unfolding s by (rule set_trim)
    with raws [OF r] z show ?thesis by blast
  qed
qed

























text \<open>
  \<open>sq X Y\<close>: \<open>Y\<close> is \<open>X\<close> with some runs of spaces, none of them a line break, deleted
  after a full stop.  The fix of a line with an \<^verbatim>\<open>@\<close> deletes all of them.
\<close>

inductive sq :: "string \<Rightarrow> string \<Rightarrow> bool" where
  sq_nil: "sq [] []"
| sq_keep: "sq X Y \<Longrightarrow> sq (c # X) (c # Y)"
| sq_drop: "\<forall>c\<in>set w. is_space c \<and> c \<noteq> CHR 0x0A \<Longrightarrow> sq X Y
     \<Longrightarrow> sq (CHR ''.'' # w @ X) (CHR ''.'' # Y)"






lemma not_space_dot: "\<not> is_space CHR ''.''"
  by (simp add: is_space_def)




lemma sq_hd_space:
  "sq X Y \<Longrightarrow> (X \<noteq> [] \<and> is_space (hd X)) \<longleftrightarrow> (Y \<noteq> [] \<and> is_space (hd Y))"
  by (erule sq.cases) (auto simp: not_space_dot)
































lemma not_dot_space: "CHR '' '' \<noteq> CHR ''.''"
  by simp

































section \<open>Copying and the tone\<close>

lemma fallbackCopyText_no_exn: "snd (fallbackCopyText text p) = None"
  by (simp add: fallbackCopyText_def execCommand_copy_def Let_def split: exec_outcome.splits prod.splits option.splits)

lemma fallbackCopyText_frame:
  "fallback_copies (fst (fallbackCopyText text p)) = fallback_copies p @ [text]
   \<and> api_writes (fst (fallbackCopyText text p)) = api_writes p
   \<and> body_textareas (fst (fallbackCopyText text p)) = body_textareas p"
  by (simp add: fallbackCopyText_def execCommand_copy_def Let_def split: exec_outcome.splits prod.splits option.splits)

lemma selectTone_same: "tonesl q = Some t \<Longrightarrow> selectTone t q = q"
  by (simp add: selectTone_def)

lemma handleKeydown_alt_a:
  "altKey ev \<Longrightarrow> key ev = ''a'' \<Longrightarrow>
   handleKeydown ev p = (ev\<lparr>defaultPrevented := True\<rparr>, toggle_tone p)"
  by (simp add: handleKeydown_def on_alt_a_def on_alt_s_def on_alt_z_def)

lemma toggle_tone_value:
  "str_includes (hostname p) ''bing.com'' \<Longrightarrow> tonesl p = Some v \<Longrightarrow>
   tonesl (toggle_tone p) = Some (if v = ''Casual'' then ''Formal'' else ''Casual'')"
  by (simp add: toggle_tone_def selectTone_def)

lemma toggle_tone_hostname: "hostname (toggle_tone p) = hostname p"
  by (simp add: toggle_tone_def selectTone_def split: option.splits)

section \<open>The properties\<close>

text \<open>
  C3.  When the input markup and the output text are both what the last processed
  invocation saw, \<^verbatim>\<open>processTranslationLineBreaks\<close> returns at once: the page is left
  as it is, so the output text is not modified and no event is dispatched.
\<close>

theorem skip_unchanged:
  assumes "input_ta p = Some html" and "output_ta p = Some text"
    and "html = lastProcessedInputHTML p" and "text = lastProcessedOutputText p"
  shows "processTranslationLineBreaks p = p"
  using assms by (simp add: processTranslationLineBreaks_def)

theorem skip_unchanged_witness:
  "processTranslationLineBreaks
     ((start_page ''a<br>b'' ''x'')\<lparr>lastProcessedInputHTML := ''a<br>b'', lastProcessedOutputText := ''x''\<rparr>)
   = (start_page ''a<br>b'' ''x'')\<lparr>lastProcessedInputHTML := ''a<br>b'', lastProcessedOutputText := ''x''\<rparr>"
  using skip_unchanged [of "(start_page ''a<br>b'' ''x'')\<lparr>lastProcessedInputHTML := ''a<br>b'', lastProcessedOutputText := ''x''\<rparr>" "''a<br>b''" "''x''"]
  by (simp add: start_page_def)

text \<open>
  C6.  When the input element or the output element is missing, the routine changes
  nothing but the timers: it sets one retry after 500 milliseconds.  The console, the
  output text and the retained strings are as before, so no segmentation took place.
\<close>

theorem missing_element_retry:
  assumes "input_ta p = None \<or> output_ta p = None"
  shows "processTranslationLineBreaks p = p\<lparr>timeouts := timeouts p @ [500]\<rparr>"
  using assms by (auto simp: processTranslationLineBreaks_def split: option.splits)

theorem missing_element_retry_witness:
  "processTranslationLineBreaks ((start_page ''a'' ''x'')\<lparr>output_ta := None\<rparr>)
     = (start_page ''a'' ''x'')\<lparr>output_ta := None, timeouts := [500]\<rparr>"
  using missing_element_retry [of "(start_page ''a'' ''x'')\<lparr>output_ta := None\<rparr>"]
  by (simp add: start_page_def)

text \<open>
  C9, as stated, fails on an invocation that the guard of lines 170 to 172 skips: that
  guard comes before the test for blank input.  A first invocation on an all-blank input
  clears the output text \<^verbatim>\<open>stale\<close>; when the host page then shows that text again, the
  next invocation sees the input and the output text of the last processed one, returns
  at once, and the text stays.
\<close>

theorem all_blank_skipped_counterexample:
  "all_blank (inputLines '' <br> '')
   \<and> output_ta (processTranslationLineBreaks (start_page '' <br> '' ''stale'')) = Some []
   \<and> output_ta (processTranslationLineBreaks
        ((processTranslationLineBreaks (start_page '' <br> '' ''stale''))
           \<lparr>output_ta := Some ''stale''\<rparr>)) = Some ''stale''
   \<and> output_events (processTranslationLineBreaks
        ((processTranslationLineBreaks (start_page '' <br> '' ''stale''))
           \<lparr>output_ta := Some ''stale''\<rparr>))
       = output_events (processTranslationLineBreaks (start_page '' <br> '' ''stale''))"
proof -
  have b: "all_blank (inputLines '' <br> '')"
    by code_simp
  have 1: "processTranslationLineBreaks (start_page '' <br> '' ''stale'')
      = triggerOutputEvents ((start_page '' <br> '' ''stale'')
          \<lparr>lastProcessedInputHTML := '' <br> '', lastProcessedOutputText := ''stale'',
            output_ta := Some []\<rparr>)"
    using b by (simp add: processTranslationLineBreaks_def start_page_def Let_def)
  have 2: "processTranslationLineBreaks
        ((processTranslationLineBreaks (start_page '' <br> '' ''stale''))
           \<lparr>output_ta := Some ''stale''\<rparr>)
      = (processTranslationLineBreaks (start_page '' <br> '' ''stale''))
           \<lparr>output_ta := Some ''stale''\<rparr>"
    unfolding 1 by (simp add: processTranslationLineBreaks_def start_page_def triggerOutputEvents_def)
  from b show ?thesis
    unfolding 2 by (simp add: 1 triggerOutputEvents_def)
qed

text \<open>
  C9, amended.  When every input line is blank, an invocation that finds both elements
  and is not skipped sets the output text to the empty string exactly when it is not
  empty yet, and dispatches the three events with that write; nothing is logged and no
  timer is set, so no segmentation took place.  Skipped or not, the invocation leaves the
  output text empty or leaves the page as it was: it never writes a text that is not
  empty.
\<close>

theorem all_blank_clears:
  assumes "input_ta p = Some html" and "output_ta p = Some text"
    and "all_blank (inputLines html)"
  shows "(\<not> (html = lastProcessedInputHTML p \<and> text = lastProcessedOutputText p) \<longrightarrow>
            processTranslationLineBreaks p =
              (if text \<noteq> []
               then p\<lparr>lastProcessedInputHTML := html, lastProcessedOutputText := text,
                      output_ta := Some [],
                      output_events := output_events p @ [EvInput, EvChange, EvCompositionEnd]\<rparr>
               else p\<lparr>lastProcessedInputHTML := html, lastProcessedOutputText := text\<rparr>))
       \<and> (output_ta (processTranslationLineBreaks p) = Some []
            \<or> processTranslationLineBreaks p = p)
       \<and> console (processTranslationLineBreaks p) = console p
       \<and> timeouts (processTranslationLineBreaks p) = timeouts p"
  using assms
  by (auto simp: processTranslationLineBreaks_def triggerOutputEvents_def Let_def)

theorem all_blank_clears_witness:
  "processTranslationLineBreaks (start_page '' <br> '' ''stale'')
     = (start_page '' <br> '' [])\<lparr>lastProcessedInputHTML := '' <br> '', lastProcessedOutputText := ''stale'',
          output_events := [EvInput, EvChange, EvCompositionEnd]\<rparr>"
proof -
  have b: "all_blank (inputLines '' <br> '')"
    by (simp add: all_blank_def inputLines_def match_br_def trim_def is_space_def)
  show ?thesis
    using all_blank_clears [of "start_page '' <br> '' ''stale''" "'' <br> ''" "''stale''"] b
    by (simp add: start_page_def)
qed

text \<open>
  C4.  The output text is written only when it differs from the computed result.
  Whatever the page, an invocation that leaves the output text as it was dispatches no
  event.  Where the routine gets to the resegmentation, the output text afterwards is the
  computed result, and the three events are dispatched exactly when the text before
  differed from it.
\<close>

theorem write_only_when_different:
  "(output_ta (processTranslationLineBreaks p) = output_ta p \<longrightarrow>
      output_events (processTranslationLineBreaks p) = output_events p)
   \<and> (input_ta p = Some html \<and> output_ta p = Some text
        \<and> \<not> (html = lastProcessedInputHTML p \<and> text = lastProcessedOutputText p)
        \<and> \<not> all_blank (inputLines html) \<longrightarrow>
      output_ta (processTranslationLineBreaks p) = Some (processedOutput html text)
      \<and> output_events (processTranslationLineBreaks p) =
          output_events p @
            (if text = processedOutput html text then [] else [EvInput, EvChange, EvCompositionEnd]))"
proof -
  have 2: "output_ta (processTranslationLineBreaks p) = Some (processedOutput html text)
      \<and> output_events (processTranslationLineBreaks p) =
          output_events p @
            (if text = processedOutput html text then [] else [EvInput, EvChange, EvCompositionEnd])"
    if "input_ta p = Some html" "output_ta p = Some text"
      "\<not> (html = lastProcessedInputHTML p \<and> text = lastProcessedOutputText p)"
      "\<not> all_blank (inputLines html)"
    using process_resegment [OF that] that by (simp add: Let_def)
  have 1: "output_events (processTranslationLineBreaks p) = output_events p"
    if same: "output_ta (processTranslationLineBreaks p) = output_ta p"
  proof (cases "input_ta p")
    case None
    then show ?thesis by (simp add: processTranslationLineBreaks_def)
  next
    case (Some h)
    show ?thesis
    proof (cases "output_ta p")
      case None
      with Some show ?thesis by (simp add: processTranslationLineBreaks_def)
    next
      case (Some t)
      note t = this
      show ?thesis
      proof (cases "h = lastProcessedInputHTML p \<and> t = lastProcessedOutputText p")
        case True
        with \<open>input_ta p = Some h\<close> t show ?thesis
          by (simp add: processTranslationLineBreaks_def)
      next
        case False
        show ?thesis
        proof (cases "all_blank (inputLines h)")
          case True
          with \<open>input_ta p = Some h\<close> t False same show ?thesis
            by (auto simp: processTranslationLineBreaks_def Let_def triggerOutputEvents_def
                split: if_splits)
        next
          case nb: False
          from process_resegment [OF \<open>input_ta p = Some h\<close> t False nb] same t show ?thesis
            by (auto simp: Let_def split: if_splits)
        qed
      qed
    qed
  qed
  from 1 2 show ?thesis by blast
qed

theorem write_only_when_different_witness:
  "output_ta (processTranslationLineBreaks (start_page ''a<br>b'' ''x. y.'')) = Some ''x.\<newline>y.''
   \<and> output_events (processTranslationLineBreaks (start_page ''a<br>b'' ''x. y.''))
        = [EvInput, EvChange, EvCompositionEnd]
   \<and> output_ta (processTranslationLineBreaks (start_page ''a<br>b'' ''x.\<newline>y.'')) = Some ''x.\<newline>y.''
   \<and> output_events (processTranslationLineBreaks (start_page ''a<br>b'' ''x.\<newline>y.'')) = []"
proof -
  have nb: "\<not> all_blank (inputLines ''a<br>b'')"
    by code_simp
  have e1: "processedOutput ''a<br>b'' ''x. y.'' = ''x.\<newline>y.''"
    by code_simp
  have e2: "processedOutput ''a<br>b'' ''x.\<newline>y.'' = ''x.\<newline>y.''"
    by code_simp
  show ?thesis
    using write_only_when_different [of "start_page ''a<br>b'' ''x. y.''" "''a<br>b''" "''x. y.''"]
      write_only_when_different [of "start_page ''a<br>b'' ''x.\<newline>y.''" "''a<br>b''" "''x.\<newline>y.''"]
      nb e1 e2
    by (simp add: start_page_def)
qed

text \<open>
  C5.  \<^verbatim>\<open>copyPlainText(text)\<close> passes the text to \<^verbatim>\<open>writeText\<close> when the Clipboard API
  is present, calls \<^verbatim>\<open>fallbackCopyText(text)\<close> exactly when the API is absent or its
  write is rejected, and lets no exception out.
\<close>

theorem copyPlainText_fallback:
  "api_writes (fst (copyPlainText text p)) =
      (if clipboard_api p \<noteq> None then api_writes p @ [text] else api_writes p)
   \<and> fallback_copies (fst (copyPlainText text p)) =
      (if clipboard_api p = None \<or> clipboard_api p = Some Rejects
       then fallback_copies p @ [text] else fallback_copies p)
   \<and> (clipboard_api p = Some Resolves \<longrightarrow> clipboard (fst (copyPlainText text p)) = text)
   \<and> snd (copyPlainText text p) = None"
proof (cases "clipboard_api p")
  case None
  then show ?thesis
    by (simp add: copyPlainText_def fallbackCopyText_no_exn fallbackCopyText_frame)
next
  case (Some oc)
  then show ?thesis
    by (cases oc)
      (simp_all add: copyPlainText_def writeText_def fallbackCopyText_no_exn fallbackCopyText_frame)
qed

theorem copyPlainText_fallback_witness:
  "api_writes (fst (copyPlainText ''bonjour'' ((start_page [] [])\<lparr>clipboard_api := Some Rejects\<rparr>))) = [''bonjour'']
   \<and> fallback_copies (fst (copyPlainText ''bonjour'' ((start_page [] [])\<lparr>clipboard_api := Some Rejects\<rparr>))) = [''bonjour'']
   \<and> snd (copyPlainText ''bonjour'' ((start_page [] [])\<lparr>clipboard_api := Some Rejects\<rparr>)) = None
   \<and> clipboard (fst (copyPlainText ''bonjour'' (start_page [] []))) = ''bonjour''
   \<and> fallback_copies (fst (copyPlainText ''bonjour'' (start_page [] []))) = []"
  using copyPlainText_fallback [of "''bonjour''" "(start_page [] [])\<lparr>clipboard_api := Some Rejects\<rparr>"]
    copyPlainText_fallback [of "''bonjour''" "start_page [] []"]
  by (simp add: start_page_def)

text \<open>
  C10.  On the translator page with the tone element present, Alt+A turns the tone
  \<^verbatim>\<open>Casual\<close> into \<^verbatim>\<open>Formal\<close> and every other tone into \<^verbatim>\<open>Casual\<close>; two toggles
  from \<^verbatim>\<open>Casual\<close> or \<^verbatim>\<open>Formal\<close> give the tone back.  \<^verbatim>\<open>selectTone\<close> leaves the
  page as it is when the requested tone is selected already.
\<close>

theorem tone_toggle:
  assumes "str_includes (hostname p) ''bing.com''" and "tonesl p = Some v"
    and "altKey ev" and "key ev = ''a''"
  shows "tonesl (snd (handleKeydown ev p)) = Some (if v = ''Casual'' then ''Formal'' else ''Casual'')
       \<and> (v = ''Casual'' \<or> v = ''Formal'' \<longrightarrow>
            tonesl (snd (handleKeydown ev (snd (handleKeydown ev p)))) = Some v)
       \<and> (tonesl q = Some t \<longrightarrow> selectTone t q = q)"
proof -
  let ?p1 = "toggle_tone p"
  have 1: "tonesl ?p1 = Some (if v = ''Casual'' then ''Formal'' else ''Casual'')"
    using assms by (simp add: toggle_tone_value)
  have h: "str_includes (hostname ?p1) ''bing.com''"
    using assms by (simp add: toggle_tone_hostname)
  have 2: "tonesl (toggle_tone ?p1) =
      Some (if (if v = ''Casual'' then ''Formal'' else ''Casual'') = ''Casual'' then ''Formal'' else ''Casual'')"
    by (rule toggle_tone_value [OF h 1])
  show ?thesis
    using 1 2 assms by (auto simp: handleKeydown_alt_a selectTone_same)
qed

theorem tone_toggle_witness:
  "str_includes (hostname (start_page [] [])) ''bing.com''
   \<and> tonesl (snd (handleKeydown \<lparr>altKey = True, key = ''a'', defaultPrevented = False\<rparr> (start_page [] [])))
       = Some ''Casual''
   \<and> tonesl (snd (handleKeydown \<lparr>altKey = True, key = ''a'', defaultPrevented = False\<rparr>
        ((start_page [] [])\<lparr>tonesl := Some ''Formal''\<rparr>))) = Some ''Casual''
   \<and> tonesl (snd (handleKeydown \<lparr>altKey = True, key = ''a'', defaultPrevented = False\<rparr>
        (snd (handleKeydown \<lparr>altKey = True, key = ''a'', defaultPrevented = False\<rparr>
           ((start_page [] [])\<lparr>tonesl := Some ''Formal''\<rparr>))))) = Some ''Formal''
   \<and> selectTone ''Standard'' (start_page [] []) = start_page [] []"
  using tone_toggle [of "start_page [] []" "''Standard''" "\<lparr>altKey = True, key = ''a'', defaultPrevented = False\<rparr>"
      "start_page [] []" "''Standard''"]
    tone_toggle [of "(start_page [] [])\<lparr>tonesl := Some ''Formal''\<rparr>" "''Formal''"
      "\<lparr>altKey = True, key = ''a'', defaultPrevented = False\<rparr>" "start_page [] []" "''Standard''"]
  by (simp add: start_page_def)

text \<open>
  C7, as stated, fails where the output text is empty: Alt+Z then copies nothing, where
  copying the trimmed text would have passed the empty string to \<^verbatim>\<open>writeText\<close>.
\<close>

theorem handleKeydown_empty_text_counterexample:
  "getTranslatedText (start_page [] []) = Some []
   \<and> api_writes (snd (handleKeydown \<lparr>altKey = True, key = ''z'', defaultPrevented = False\<rparr> (start_page [] []))) = []
   \<and> fallback_copies (snd (handleKeydown \<lparr>altKey = True, key = ''z'', defaultPrevented = False\<rparr> (start_page [] []))) = []
   \<and> api_writes (fst (copyPlainText (trim []) (start_page [] []))) = [[]]"
  by (simp add: handleKeydown_def on_alt_a_def on_alt_s_def on_alt_z_def
      getTranslatedText_def start_page_def copyPlainText_def writeText_def trim_def)

text \<open>
  C7, amended.  The handler acts on exactly three shortcuts, and calls
  \<^verbatim>\<open>preventDefault\<close> on exactly these.  Alt+Z copies the trimmed output text when the
  output element is there and its text is not empty, and copies nothing otherwise; Alt+S
  clicks the swap button when it is there; Alt+A toggles the tone.  On every other event
  the handler does nothing.
\<close>

theorem handleKeydown_cases:
  "handleKeydown ev p =
     (if altKey ev \<and> key ev = ''z''
      then (ev\<lparr>defaultPrevented := True\<rparr>,
            case output_ta p of
              Some t \<Rightarrow> if t \<noteq> [] then fst (copyPlainText (trim t) p) else p
            | None \<Rightarrow> p)
      else if altKey ev \<and> key ev = ''s''
      then (ev\<lparr>defaultPrevented := True\<rparr>,
            case revIcon p of Some n \<Rightarrow> p\<lparr>revIcon := Some (Suc n)\<rparr> | None \<Rightarrow> p)
      else if altKey ev \<and> key ev = ''a''
      then (ev\<lparr>defaultPrevented := True\<rparr>, toggle_tone p)
      else (ev, p))"
  by (auto simp: handleKeydown_def on_alt_a_def on_alt_s_def on_alt_z_def
      getTranslatedText_def clickElement_revIcon_def split: option.splits)

theorem handleKeydown_cases_witness:
  "handleKeydown \<lparr>altKey = True, key = ''z'', defaultPrevented = False\<rparr> (start_page [] '' Bonjour. '')
     = (\<lparr>altKey = True, key = ''z'', defaultPrevented = True\<rparr>,
        (start_page [] '' Bonjour. '')\<lparr>api_writes := [''Bonjour.''], clipboard := ''Bonjour.''\<rparr>)
   \<and> handleKeydown \<lparr>altKey = True, key = ''s'', defaultPrevented = False\<rparr> (start_page [] [])
     = (\<lparr>altKey = True, key = ''s'', defaultPrevented = True\<rparr>, (start_page [] [])\<lparr>revIcon := Some 1\<rparr>)
   \<and> handleKeydown \<lparr>altKey = False, key = ''z'', defaultPrevented = False\<rparr> (start_page [] ''x'')
     = (\<lparr>altKey = False, key = ''z'', defaultPrevented = False\<rparr>, start_page [] ''x'')
   \<and> handleKeydown \<lparr>altKey = True, key = ''Z'', defaultPrevented = False\<rparr> (start_page [] ''x'')
     = (\<lparr>altKey = True, key = ''Z'', defaultPrevented = False\<rparr>, start_page [] ''x'')"
proof -
  have t: "trim '' Bonjour. '' = ''Bonjour.''"
    by code_simp
  show ?thesis
    using handleKeydown_cases [of "\<lparr>altKey = True, key = ''z'', defaultPrevented = False\<rparr>" "start_page [] '' Bonjour. ''"]
      handleKeydown_cases [of "\<lparr>altKey = True, key = ''s'', defaultPrevented = False\<rparr>" "start_page [] []"]
      handleKeydown_cases [of "\<lparr>altKey = False, key = ''z'', defaultPrevented = False\<rparr>" "start_page [] ''x''"]
      handleKeydown_cases [of "\<lparr>altKey = True, key = ''Z'', defaultPrevented = False\<rparr>" "start_page [] ''x''"]
      t
    by (simp add: start_page_def copyPlainText_def writeText_def)
qed

text \<open>
  C2.  When the output text gives fewer segments than there are input lines that are not
  blank, the routine logs one warning for each input line left without a segment, in
  order and with the trimmed line, and puts an empty string at that line's place in the
  restored array.  Nothing else is done about the mismatch: the array has one entry for
  each input line, blank lines and unmatched lines are empty, the other lines hold their
  segment, the output text becomes the post-processed array, and no timer is set.
\<close>

theorem fewer_segments_placeholders:
  assumes "input_ta p = Some html" and "output_ta p = Some text"
    and "\<not> (html = lastProcessedInputHTML p \<and> text = lastProcessedOutputText p)"
    and "length (outputSegments text) < length (nonblank (inputLines html))"
  shows "console (processTranslationLineBreaks p) =
           console p @ map (\<lambda>l. WarnMismatch (trim l))
             (drop (length (outputSegments text)) (nonblank (inputLines html)))
       \<and> length (restoredOutputArray html text) = length (inputLines html)
       \<and> (\<forall>i<length (inputLines html).
            restoredOutputArray html text ! i =
              (if trim (inputLines html ! i) = []
                  \<or> length (outputSegments text) \<le> line_rank (inputLines html) i
               then [] else outputSegments text ! line_rank (inputLines html) i))
       \<and> output_ta (processTranslationLineBreaks p) = Some (post_process (restoredOutputArray html text))
       \<and> timeouts (processTranslationLineBreaks p) = timeouts p"
proof -
  let ?ls = "inputLines html" and ?S = "outputSegments text"
  from assms(4) have le: "length ?S \<le> length (nonblank ?ls)" by simp
  from assms(4) have nb: "\<not> all_blank ?ls"
    by (auto simp: all_blank_nonblank)
  have r: "restore ?ls ?S [] =
      (aligned ?ls ?S, map (\<lambda>l. WarnMismatch (trim l)) (drop (length ?S) (nonblank ?ls)))"
    using restore_fewer [OF le, of "[]"] by simp
  then have arr: "restoredOutputArray html text = aligned ?ls ?S"
    by (simp add: restoredOutputArray_def)
  have n: "\<forall>i<length ?ls. aligned ?ls ?S ! i =
      (if trim (?ls ! i) = [] \<or> length ?S \<le> line_rank ?ls i then [] else ?S ! line_rank ?ls i)"
    by (auto simp: aligned_nth)
  have c: "console (processTranslationLineBreaks p) =
      console p @ map (\<lambda>l. WarnMismatch (trim l)) (drop (length ?S) (nonblank ?ls))"
    using process_resegment [OF assms(1,2,3) nb] r by (simp add: Let_def)
  have o: "output_ta (processTranslationLineBreaks p) = Some (post_process (restoredOutputArray html text))"
    using process_resegment [OF assms(1,2,3) nb] assms(2)
    by (simp add: Let_def processedOutput_def)
  have t: "timeouts (processTranslationLineBreaks p) = timeouts p"
    using process_resegment [OF assms(1,2,3) nb] by (simp add: Let_def)
  have l: "length (restoredOutputArray html text) = length ?ls"
    by (simp add: arr length_aligned)
  from c o t l n show ?thesis
    unfolding arr by blast
qed

theorem fewer_segments_placeholders_witness:
  "length (outputSegments ''p'') < length (nonblank (inputLines ''a<br><br>b<br>c''))
   \<and> console (processTranslationLineBreaks (start_page ''a<br><br>b<br>c'' ''p''))
        = [WarnMismatch ''b'', WarnMismatch ''c'']
   \<and> restoredOutputArray ''a<br><br>b<br>c'' ''p'' = [''p'', [], [], []]
   \<and> output_ta (processTranslationLineBreaks (start_page ''a<br><br>b<br>c'' ''p''))
        = Some ''p\<newline>\<newline>\<newline>''
   \<and> timeouts (processTranslationLineBreaks (start_page ''a<br><br>b<br>c'' ''p'')) = []"
proof -
  have h: "length (outputSegments ''p'') < length (nonblank (inputLines ''a<br><br>b<br>c''))"
    by code_simp
  have w: "map (\<lambda>l. WarnMismatch (trim l))
             (drop (length (outputSegments ''p'')) (nonblank (inputLines ''a<br><br>b<br>c'')))
           = [WarnMismatch ''b'', WarnMismatch ''c'']"
    by code_simp
  have a: "restoredOutputArray ''a<br><br>b<br>c'' ''p'' = [''p'', [], [], []]"
    by code_simp
  have o: "post_process [''p'', [], [], []] = ''p\<newline>\<newline>\<newline>''"
    by code_simp
  show ?thesis
    using fewer_segments_placeholders [of "start_page ''a<br><br>b<br>c'' ''p''" "''a<br><br>b<br>c''" "''p''"]
      h w a o
    by (simp add: start_page_def)
qed

text \<open>
  C1, as stated, fails where a segment holds a line break: the segments are sentences,
  and a sentence match runs over line breaks.  Two input lines without a full stop, and
  their translation on two lines, give one segment and three output lines.
\<close>

theorem line_structure_counterexample:
  "\<not> all_blank (inputLines ''Hello<br>World'')
   \<and> length (inputLines ''Hello<br>World'') = 2
   \<and> split_nl (processedOutput ''Hello<br>World'' ''Bonjour\<newline>Monde'') = [''Bonjour'', ''Monde'', []]
   \<and> length (split_nl (processedOutput ''Hello<br>World'' ''Bonjour\<newline>Monde'')) = 3"
  by code_simp

text \<open>
  C1, amended.  When not every input line is blank, the restored array has one entry for
  each input line: an empty string for a blank line, and for the \<open>j\<close>-th line that is not
  blank segment \<open>j\<close> in order (an empty string once the segments have run out); the
  segments beyond the last such line are appended to that line's entry.  The text written
  is the array with the e-mail post-processing applied to each line; it has exactly as
  many lines as the input when no segment holds a line break.
\<close>

theorem line_structure:
  assumes "\<not> all_blank (inputLines html)"
  shows "length (restoredOutputArray html text) = length (inputLines html)
       \<and> (\<forall>i<length (inputLines html).
            restoredOutputArray html text ! i =
              (if trim (inputLines html ! i) = [] then []
               else if length (outputSegments text) \<le> line_rank (inputLines html) i then []
               else if Suc (line_rank (inputLines html) i) = length (nonblank (inputLines html))
                 then foldl careful_concat (outputSegments text ! line_rank (inputLines html) i)
                        (drop (length (nonblank (inputLines html))) (outputSegments text))
                 else outputSegments text ! line_rank (inputLines html) i))
       \<and> ((\<forall>s\<in>set (outputSegments text). CHR 0x0A \<notin> set s) \<longrightarrow>
            split_nl (processedOutput html text) = map fix_email_line (restoredOutputArray html text))
       \<and> (input_ta p = Some html \<and> output_ta p = Some text
            \<and> \<not> (html = lastProcessedInputHTML p \<and> text = lastProcessedOutputText p) \<longrightarrow>
            output_ta (processTranslationLineBreaks p) = Some (processedOutput html text))"
proof -
  let ?ls = "inputLines html" and ?S = "outputSegments text"
  let ?arr = "restoredOutputArray html text"
  have ne: "[] \<notin> set ?S" by (rule outputSegments_nonempty)
  from assms have nb: "nonblank ?ls \<noteq> []" by (simp add: all_blank_nonblank)
  have 1: "length ?arr = length ?ls"
    unfolding restoredOutputArray_def by (rule restore_length [OF ne nb])
  have 2: "\<forall>i<length ?ls. ?arr ! i =
      (if trim (?ls ! i) = [] then []
       else if length ?S \<le> line_rank ?ls i then []
       else if Suc (line_rank ?ls i) = length (nonblank ?ls)
         then foldl careful_concat (?S ! line_rank ?ls i) (drop (length (nonblank ?ls)) ?S)
         else ?S ! line_rank ?ls i)"
    unfolding restoredOutputArray_def using restore_nth [OF ne nb] by blast
  have 3: "split_nl (processedOutput html text) = map fix_email_line ?arr"
    if nl: "\<forall>s\<in>set ?S. CHR 0x0A \<notin> set s"
  proof -
    have "\<forall>e\<in>set ?arr. CHR 0x0A \<notin> set e"
    proof
      fix e assume e: "e \<in> set ?arr"
      show "CHR 0x0A \<notin> set e"
      proof
        assume "CHR 0x0A \<in> set e"
        from restore_chars [OF ne nb e [unfolded restoredOutputArray_def] this] nl
        show False by auto
      qed
    qed
    moreover have "?arr \<noteq> []"
      using 1 nb by (auto simp: nonblank_def)
    ultimately show ?thesis
      unfolding processedOutput_def by (rule post_process_lines [rotated])
  qed
  have 4: "output_ta (processTranslationLineBreaks p) = Some (processedOutput html text)"
    if "input_ta p = Some html" "output_ta p = Some text"
      "\<not> (html = lastProcessedInputHTML p \<and> text = lastProcessedOutputText p)"
    using process_resegment [OF that assms] that by (simp add: Let_def)
  from 1 2 3 4 show ?thesis by blast
qed

theorem line_structure_witness:
  "length (restoredOutputArray ''Hi.<br><br>Bye.'' ''A. B. C!'') = 3
   \<and> split_nl (processedOutput ''Hi.<br><br>Bye.'' ''A. B. C!'') = [''A.'', [], ''B. C!'']
   \<and> output_ta (processTranslationLineBreaks (start_page ''Hi.<br><br>Bye.'' ''A. B. C!''))
     = Some ''A.\<newline>\<newline>B. C!''"
proof -
  have nb: "\<not> all_blank (inputLines ''Hi.<br><br>Bye.'')"
    by code_simp
  note L = line_structure [OF nb, of "''A. B. C!''" "start_page ''Hi.<br><br>Bye.'' ''A. B. C!''"]
  have n: "length (inputLines ''Hi.<br><br>Bye.'') = 3"
    by code_simp
  have s: "\<forall>s\<in>set (outputSegments ''A. B. C!''). CHR 0x0A \<notin> set s"
    by code_simp
  have f: "map fix_email_line (restoredOutputArray ''Hi.<br><br>Bye.'' ''A. B. C!'') = [''A.'', [], ''B. C!'']"
    by code_simp
  have o: "processedOutput ''Hi.<br><br>Bye.'' ''A. B. C!'' = ''A.\<newline>\<newline>B. C!''"
    by code_simp
  have 1: "length (restoredOutputArray ''Hi.<br><br>Bye.'' ''A. B. C!'') = 3"
    using L [THEN conjunct1] n by simp
  have 3: "split_nl (processedOutput ''Hi.<br><br>Bye.'' ''A. B. C!'') = [''A.'', [], ''B. C!'']"
    using L [THEN conjunct2, THEN conjunct2, THEN conjunct1, THEN mp, OF s] f by simp
  have 4: "output_ta (processTranslationLineBreaks (start_page ''Hi.<br><br>Bye.'' ''A. B. C!''))
     = Some ''A.\<newline>\<newline>B. C!''"
    using L [THEN conjunct2, THEN conjunct2, THEN conjunct2] o by (simp add: start_page_def)
  from 1 3 4 show ?thesis by blast
qed




end
